theory Spec2Isabelle
  imports Main "HOL-Library.Multiset"
begin

section \<open>Drinking philosophers: the bottle pool, the graph and the philosopher\<close>

text \<open>
  A shallow embedding of \<^verbatim>\<open>Assignments/drinking_philosopher.cpp\<close>.

  Values of the C++ type \<^verbatim>\<open>int\<close> (philosopher ids, bottle ids, the owner entries of
  the pool) are modelled as \<^typ>\<open>int\<close>: the program only stores and compares them. The only
  arithmetic on an \<^verbatim>\<open>int\<close> is the \<^verbatim>\<open>++i\<close> of a loop counter. A counter starts at 0 and
  stops at the size of a vector that was created from an \<^verbatim>\<open>int\<close> count, or at the limit
  of at most 2, so it does not overflow; the counters are modelled as \<^typ>\<open>nat\<close>.

  Every member function of \<^verbatim>\<open>Bottles\<close> takes the pool's mutex for its whole body, so a
  call is one atomic step on the vector of owners; the model passes that vector in and
  returns it updated. \<^verbatim>\<open>logBottleState\<close> only prints and is left out.
\<close>

subsection \<open>Failures\<close>

text \<open>
  \<^verbatim>\<open>std::vector::operator[]\<close> does not check its index: an index outside the vector is
  undefined behaviour, and no exception is raised. An exception that is raised is a
  different outcome, \<open>Thrown\<close>.
\<close>

datatype exn = Length_Error | Out_Of_Range

datatype fault = Undefined_Behaviour | Thrown exn

text \<open>
  \<^verbatim>\<open>v[i]\<close> for an \<^verbatim>\<open>int i\<close>: the index is converted to \<^verbatim>\<open>size_t\<close>, so a negative one
  is out of range too.
\<close>

definition in_range :: "'a list \<Rightarrow> int \<Rightarrow> bool" where
  "in_range v i \<longleftrightarrow> 0 \<le> i \<and> nat i < length v"

definition vec_read :: "'a list \<Rightarrow> int \<Rightarrow> fault + 'a" where
  "vec_read v i = (if in_range v i then Inr (v ! nat i) else Inl Undefined_Behaviour)"

definition vec_write :: "'a list \<Rightarrow> int \<Rightarrow> 'a \<Rightarrow> fault + 'a list" where
  "vec_write v i x = (if in_range v i then Inr (v[nat i := x]) else Inl Undefined_Behaviour)"

subsection \<open>class Bottles\<close>

text \<open>
  \<^verbatim>\<open>Bottles(const int number_of_bottles) : bottles(number_of_bottles, -1)\<close>.
  The owner \<open>-1\<close> marks a free bottle. A negative count, converted to \<^verbatim>\<open>size_t\<close>,
  exceeds the vector's \<^verbatim>\<open>max_size()\<close>, and the constructor throws.
\<close>

definition Bottles :: "int \<Rightarrow> fault + int list" where
  "Bottles number_of_bottles =
     (if number_of_bottles < 0 then Inl (Thrown Length_Error)
      else Inr (replicate (nat number_of_bottles) (- 1)))"

text \<open>
  The first loop of \<^verbatim>\<open>acquireBottles\<close>: \<open>Inr False\<close> is the early \<^verbatim>\<open>return false\<close>,
  \<open>Inr True\<close> is falling out of the loop.
\<close>

fun acquire_check :: "int \<Rightarrow> int list \<Rightarrow> int list \<Rightarrow> fault + bool" where
  "acquire_check philosopher_id [] bottles = Inr True"
| "acquire_check philosopher_id (bottle # rest) bottles =
     (case vec_read bottles bottle of
        Inl f \<Rightarrow> Inl f
      | Inr owner \<Rightarrow>
          if owner \<noteq> - 1 \<and> owner \<noteq> philosopher_id then Inr False
          else acquire_check philosopher_id rest bottles)"

text \<open>The second loop: \<^verbatim>\<open>bottles[bottle] = philosopher_id\<close> for every requested bottle.\<close>

fun acquire_assign :: "int \<Rightarrow> int list \<Rightarrow> int list \<Rightarrow> fault + int list" where
  "acquire_assign philosopher_id [] bottles = Inr bottles"
| "acquire_assign philosopher_id (bottle # rest) bottles =
     (case vec_write bottles bottle philosopher_id of
        Inl f \<Rightarrow> Inl f
      | Inr bottles' \<Rightarrow> acquire_assign philosopher_id rest bottles')"

text \<open>The result is the returned \<^verbatim>\<open>bool\<close> and the vector of owners after the call.\<close>

definition acquireBottles :: "int \<Rightarrow> int list \<Rightarrow> int list \<Rightarrow> fault + bool \<times> int list" where
  "acquireBottles philosopher_id required_bottles bottles =
     (case acquire_check philosopher_id required_bottles bottles of
        Inl f \<Rightarrow> Inl f
      | Inr False \<Rightarrow> Inr (False, bottles)
      | Inr True \<Rightarrow>
          (case acquire_assign philosopher_id required_bottles bottles of
             Inl f \<Rightarrow> Inl f
           | Inr bottles' \<Rightarrow> Inr (True, bottles')))"

text \<open>
  \<^verbatim>\<open>releaseBottles\<close>: the loop \<^verbatim>\<open>for (int i = 0; i < bottles.size(); ++i)\<close>, from the
  counter \<open>i\<close> on.
\<close>

function release_loop :: "nat \<Rightarrow> int \<Rightarrow> int list \<Rightarrow> fault + int list" where
  "release_loop i philosopher_id bottles =
     (if i < length bottles then
        (case vec_read bottles (int i) of
           Inl f \<Rightarrow> Inl f
         | Inr owner \<Rightarrow>
             if owner = philosopher_id then
               (case vec_write bottles (int i) (- 1) of
                  Inl f \<Rightarrow> Inl f
                | Inr bottles' \<Rightarrow> release_loop (Suc i) philosopher_id bottles')
             else release_loop (Suc i) philosopher_id bottles)
      else Inr bottles)"
  by pat_completeness auto
termination
  by (relation "measure (\<lambda>(i, p, bottles). length bottles - i)")
     (auto simp: vec_write_def split: if_splits)

declare release_loop.simps [simp del]

definition releaseBottles :: "int \<Rightarrow> int list \<Rightarrow> fault + int list" where
  "releaseBottles philosopher_id bottles = release_loop 0 philosopher_id bottles"

subsection \<open>class Graph\<close>

text \<open>
  \<^verbatim>\<open>std::vector<std::map<int, int> > adjacency_list\<close>: one map per philosopher, from a
  neighbour to the bottle on that edge. A \<^verbatim>\<open>std::map\<close> holds one value per key and is
  iterated in ascending key order; it is modelled as a list of pairs kept in that order.
  \<open>map_assign k v m\<close> is \<^verbatim>\<open>m[k] = v\<close>: the entry of \<open>k\<close> is created if there is none
  and overwritten if there is one.
\<close>

type_synonym adjacency = "(int \<times> int) list list"

fun map_assign :: "int \<Rightarrow> int \<Rightarrow> (int \<times> int) list \<Rightarrow> (int \<times> int) list" where
  "map_assign k v [] = [(k, v)]"
| "map_assign k v ((k', v') # m) =
     (if k < k' then (k, v) # (k', v') # m
      else if k = k' then (k, v) # m
      else (k', v') # map_assign k v m)"

text \<open>\<^verbatim>\<open>Graph(int number_fo_vertices) : adjacency_list(number_fo_vertices)\<close>.\<close>

definition Graph :: "int \<Rightarrow> fault + adjacency" where
  "Graph number_fo_vertices =
     (if number_fo_vertices < 0 then Inl (Thrown Length_Error)
      else Inr (replicate (nat number_fo_vertices) []))"

text \<open>
  \<^verbatim>\<open>addEdge\<close>: two statements, each indexing the vector with one vertex and the map with
  the other. The bottle id is stored as it comes.
\<close>

definition addEdge :: "int \<Rightarrow> int \<Rightarrow> int \<Rightarrow> adjacency \<Rightarrow> fault + adjacency" where
  "addEdge vectex_1 vertex_2 bottle_id adjacency_list =
     (case vec_read adjacency_list vectex_1 of
        Inl f \<Rightarrow> Inl f
      | Inr m1 \<Rightarrow>
          (case vec_write adjacency_list vectex_1 (map_assign vertex_2 bottle_id m1) of
             Inl f \<Rightarrow> Inl f
           | Inr adjacency_list' \<Rightarrow>
               (case vec_read adjacency_list' vertex_2 of
                  Inl f \<Rightarrow> Inl f
                | Inr m2 \<Rightarrow>
                    vec_write adjacency_list' vertex_2 (map_assign vectex_1 bottle_id m2))))"

text \<open>\<^verbatim>\<open>getAdjacentBottles\<close>: the bottle of every entry of the philosopher's map, in key order.\<close>

definition getAdjacentBottles :: "adjacency \<Rightarrow> int \<Rightarrow> fault + int list" where
  "getAdjacentBottles adjacency_list philosopher_id =
     (case vec_read adjacency_list philosopher_id of
        Inl f \<Rightarrow> Inl f
      | Inr m \<Rightarrow> Inr (map snd m))"

text \<open>
  The states that a \<^verbatim>\<open>std::map\<close> can be in: the keys in strictly ascending order, so that
  every key has one entry. \<^verbatim>\<open>Graph\<close> creates such maps and \<^verbatim>\<open>addEdge\<close> keeps them so.
\<close>

definition map_ok :: "(int \<times> int) list \<Rightarrow> bool" where
  "map_ok m \<longleftrightarrow> sorted_wrt (<) (map fst m)"

definition graph_ok :: "adjacency \<Rightarrow> bool" where
  "graph_ok g \<longleftrightarrow> (\<forall>m \<in> set g. map_ok m)"

subsection \<open>class Philosopher\<close>

datatype State = TRANQUIL | THIRSTY | DRINKING

text \<open>
  The fields of a philosopher that \<^verbatim>\<open>becomeThirsty\<close> touches. The shared pool and graph are
  passed to the functions that use them.
\<close>

record Philosopher =
  phil_id :: int
  state :: State
  required_bottles :: "int list"

text \<open>
  The selection loop of \<^verbatim>\<open>becomeThirsty\<close>,
  \<^verbatim>\<open>for (int i = 0; i < limit && i < adjacent_bottles.size(); ++i)\<close>, from the counter
  \<open>i\<close> on: it appends \<^verbatim>\<open>adjacent_bottles[indices[i]]\<close> to \<^verbatim>\<open>required_bottles\<close>.
\<close>

function select_loop :: "nat \<Rightarrow> nat \<Rightarrow> int list \<Rightarrow> int list \<Rightarrow> int list \<Rightarrow> fault + int list" where
  "select_loop i limit adjacent_bottles indices required =
     (if i < limit \<and> i < length adjacent_bottles then
        (case vec_read indices (int i) of
           Inl f \<Rightarrow> Inl f
         | Inr j \<Rightarrow>
             (case vec_read adjacent_bottles j of
                Inl f \<Rightarrow> Inl f
              | Inr bottle \<Rightarrow>
                  select_loop (Suc i) limit adjacent_bottles indices (required @ [bottle])))
      else Inr required)"
  by pat_completeness auto
termination
  by (relation "measure (\<lambda>(i, limit, adjacent_bottles, indices, required). limit - i)") auto

declare select_loop.simps [simp del]

text \<open>\<^verbatim>\<open>std::iota(indices.begin(), indices.end(), 0)\<close> on a vector of \<open>n\<close> elements.\<close>

definition iota :: "nat \<Rightarrow> int list" where
  "iota n = map int [0..<n]"

text \<open>
  \<^verbatim>\<open>becomeThirsty\<close>. The two random draws are parameters: \<open>rand_value\<close> is what
  \<^verbatim>\<open>rand()\<close> returns (it is never negative), and \<open>shuffle\<close> is what
  \<^verbatim>\<open>std::ranges::shuffle(indices, generate)\<close> does to the vector of indices.
  \<^verbatim>\<open>required_bottles.clear()\<close> is the empty list the loop starts from.
\<close>

definition becomeThirsty ::
  "adjacency \<Rightarrow> nat \<Rightarrow> (int list \<Rightarrow> int list) \<Rightarrow> Philosopher \<Rightarrow> fault + Philosopher" where
  "becomeThirsty graph rand_value shuffle ph =
     (case getAdjacentBottles graph (phil_id ph) of
        Inl f \<Rightarrow> Inl f
      | Inr adjacent_bottles \<Rightarrow>
          (let limit = rand_value mod 2 + 1;
               indices = shuffle (iota (length adjacent_bottles))
           in case select_loop 0 limit adjacent_bottles indices [] of
                Inl f \<Rightarrow> Inl f
              | Inr required \<Rightarrow> Inr (ph\<lparr>state := THIRSTY, required_bottles := required\<rparr>)))"

subsection \<open>Sequences of pool calls\<close>

text \<open>
  The calls that the philosophers' threads make on the shared pool, in the order in which
  they take the mutex.
\<close>

datatype pool_call = Acquire int "int list" | Release int

text \<open>
  Beside the vector of owners, a run records which bottles each caller has been granted:
  the pair \<open>(a, b)\<close> is entered when \<^verbatim>\<open>acquireBottles(a, S)\<close> with \<open>b\<close> in \<open>S\<close> returns
  \<^verbatim>\<open>true\<close>, and removed by \<^verbatim>\<open>releaseBottles(a)\<close>. This is the time during which
  philosopher \<open>a\<close> drinks from bottle \<open>b\<close>; the record is not part of the program.
\<close>

fun pool_step :: "pool_call \<Rightarrow> int list \<times> (int \<times> int) list \<Rightarrow> fault + int list \<times> (int \<times> int) list" where
  "pool_step (Acquire a S) (bottles, granted) =
     (case acquireBottles a S bottles of
        Inl f \<Rightarrow> Inl f
      | Inr (ok, bottles') \<Rightarrow>
          Inr (bottles', if ok then map (Pair a) S @ granted else granted))"
| "pool_step (Release a) (bottles, granted) =
     (case releaseBottles a bottles of
        Inl f \<Rightarrow> Inl f
      | Inr bottles' \<Rightarrow> Inr (bottles', filter (\<lambda>(x, b). x \<noteq> a) granted))"

fun pool_run :: "pool_call list \<Rightarrow> int list \<times> (int \<times> int) list \<Rightarrow> fault + int list \<times> (int \<times> int) list" where
  "pool_run [] st = Inr st"
| "pool_run (c # cs) st =
     (case pool_step c st of
        Inl f \<Rightarrow> Inl f
      | Inr st' \<Rightarrow> pool_run cs st')"

text \<open>
  The invariant of a run: whoever has been granted a bottle is a philosopher (not the free
  mark) and is the owner that the pool records for it, and every bottle that the pool
  records as owned has been granted to that owner.
\<close>

definition pool_inv :: "int list \<Rightarrow> (int \<times> int) list \<Rightarrow> bool" where
  "pool_inv bs G \<longleftrightarrow>
     (\<forall>x b. (x, b) \<in> set G \<longrightarrow> x \<noteq> - 1 \<and> in_range bs b \<and> bs ! nat b = x) \<and>
     (\<forall>i < length bs. bs ! i \<noteq> - 1 \<longrightarrow> (bs ! i, int i) \<in> set G)"

section \<open>The bottle pool\<close>

subsection \<open>What the loops compute\<close>

lemma acquire_check_eq:
  "\<forall>b \<in> set req. in_range bs b \<Longrightarrow>
   acquire_check p req bs = Inr (\<forall>b \<in> set req. bs ! nat b = - 1 \<or> bs ! nat b = p)"
  by (induction req) (auto simp: vec_read_def)

lemma acquire_check_in_range:
  "acquire_check p req bs = Inr True \<Longrightarrow> \<forall>b \<in> set req. in_range bs b"
  by (induction req) (auto simp: vec_read_def split: if_splits)

lemma acquire_assign_eq:
  "\<forall>b \<in> set req. in_range bs b \<Longrightarrow>
   \<exists>bs'. acquire_assign p req bs = Inr bs' \<and> length bs' = length bs \<and>
     (\<forall>i < length bs. bs' ! i = (if int i \<in> set req then p else bs ! i))"
proof (induction req arbitrary: bs)
  case Nil
  then show ?case by simp
next
  case (Cons b req)
  let ?bs1 = "bs[nat b := p]"
  from Cons.prems have b: "in_range bs b" and rest: "\<forall>c \<in> set req. in_range ?bs1 c"
    by (simp_all add: in_range_def)
  from Cons.IH [OF rest] obtain bs' where
    run: "acquire_assign p req ?bs1 = Inr bs'" and len: "length bs' = length bs"
    and own: "\<forall>i < length bs. bs' ! i = (if int i \<in> set req then p else ?bs1 ! i)"
    by auto
  have "\<forall>i < length bs. bs' ! i = (if int i \<in> set (b # req) then p else bs ! i)"
  proof (intro allI impI)
    fix i assume i: "i < length bs"
    show "bs' ! i = (if int i \<in> set (b # req) then p else bs ! i)"
    proof (cases "int i = b")
      case True
      with own i b show ?thesis by (auto simp: in_range_def)
    next
      case False
      then have "i \<noteq> nat b" using b by (auto simp: in_range_def)
      with own i False show ?thesis by auto
    qed
  qed
  with run len b show ?case by (simp add: vec_write_def)
qed

lemma acquireBottles_refused:
  assumes "\<forall>b \<in> set req. in_range bs b"
    and "\<not> (\<forall>b \<in> set req. bs ! nat b = - 1 \<or> bs ! nat b = p)"
  shows "acquireBottles p req bs = Inr (False, bs)"
proof -
  have "acquire_check p req bs = Inr False"
    using assms by (simp add: acquire_check_eq)
  then show ?thesis by (simp add: acquireBottles_def)
qed

lemma acquireBottles_granted:
  assumes "\<forall>b \<in> set req. in_range bs b"
    and "\<forall>b \<in> set req. bs ! nat b = - 1 \<or> bs ! nat b = p"
  shows "\<exists>bs'. acquireBottles p req bs = Inr (True, bs') \<and> length bs' = length bs \<and>
     (\<forall>i < length bs. bs' ! i = (if int i \<in> set req then p else bs ! i))"
proof -
  from acquire_assign_eq [OF assms(1), of p] obtain bs' where
    "acquire_assign p req bs = Inr bs'" "length bs' = length bs"
    "\<forall>i < length bs. bs' ! i = (if int i \<in> set req then p else bs ! i)"
    by blast
  moreover have "acquire_check p req bs = Inr True"
    using assms by (simp add: acquire_check_eq)
  ultimately show ?thesis by (simp add: acquireBottles_def)
qed

lemma acquireBottles_True_in_range:
  "acquireBottles p req bs = Inr (True, bs') \<Longrightarrow> \<forall>b \<in> set req. in_range bs b"
  using acquire_check_in_range [of p req bs]
  by (auto simp: acquireBottles_def split: sum.splits bool.splits)

lemma release_loop_eq:
  "release_loop i p bs =
     Inr (take i bs @ map (\<lambda>owner. if owner = p then - 1 else owner) (drop i bs))"
proof (induction i p bs rule: release_loop.induct)
  case (1 i p bs)
  let ?f = "\<lambda>owner. if owner = p then - 1 else owner"
  show ?case
  proof (cases "i < length bs")
    case False
    then show ?thesis by (subst release_loop.simps) simp
  next
    case True
    then have rng: "in_range bs (int i)" by (simp add: in_range_def)
    show ?thesis
    proof (cases "bs ! i = p")
      case own: True
      have "release_loop i p bs = release_loop (Suc i) p (bs[i := - 1])"
        using True rng own
        by (subst release_loop.simps) (simp add: vec_read_def vec_write_def in_range_def)
      also have "\<dots> = Inr (take (Suc i) (bs[i := - 1]) @ map ?f (drop (Suc i) (bs[i := - 1])))"
        using "1.IH"(1) [of "bs ! i" "bs[i := - 1]"] True rng own
        by (simp add: vec_read_def vec_write_def in_range_def)
      also have "take (Suc i) (bs[i := - 1]) = take i bs @ [- 1]"
        using True by (simp add: take_Suc_conv_app_nth)
      also have "drop (Suc i) (bs[i := - 1]) = drop (Suc i) bs" by simp
      finally show ?thesis using True own by (simp add: Cons_nth_drop_Suc [symmetric])
    next
      case other: False
      have "release_loop i p bs = release_loop (Suc i) p bs"
        using True rng other by (subst release_loop.simps) (simp add: vec_read_def)
      also have "\<dots> = Inr (take (Suc i) bs @ map ?f (drop (Suc i) bs))"
        using "1.IH"(2) [of "bs ! i"] True rng other by (simp add: vec_read_def)
      finally show ?thesis using True other
        by (simp add: take_Suc_conv_app_nth Cons_nth_drop_Suc [symmetric])
    qed
  qed
qed

lemma releaseBottles_eq:
  "releaseBottles p bs = Inr (map (\<lambda>owner. if owner = p then - 1 else owner) bs)"
  using release_loop_eq [of 0 p bs] by (simp add: releaseBottles_def)

subsection \<open>All-or-nothing acquisition\<close>

text \<open>
  Claim C1. For a request \<open>S\<close> of bottles of the pool, \<^verbatim>\<open>acquireBottles(a, S)\<close> returns
  \<^verbatim>\<open>true\<close> exactly when every bottle of \<open>S\<close> is free or already owned by \<open>a\<close>. When it
  returns \<^verbatim>\<open>true\<close>, every bottle of \<open>S\<close> is owned by \<open>a\<close>; when it returns \<^verbatim>\<open>false\<close>,
  the vector of owners is the one before the call.
\<close>

theorem acquireBottles_all_or_nothing:
  assumes "\<forall>b \<in> set S. in_range bottles b"
  shows "\<exists>ok bottles'. acquireBottles a S bottles = Inr (ok, bottles') \<and>
     (ok \<longleftrightarrow> (\<forall>b \<in> set S. bottles ! nat b = - 1 \<or> bottles ! nat b = a)) \<and>
     (ok \<longrightarrow> (\<forall>b \<in> set S. bottles' ! nat b = a)) \<and>
     (\<not> ok \<longrightarrow> bottles' = bottles)"
proof (cases "\<forall>b \<in> set S. bottles ! nat b = - 1 \<or> bottles ! nat b = a")
  case True
  from acquireBottles_granted [OF assms True] obtain bs' where
    run: "acquireBottles a S bottles = Inr (True, bs')"
    and own: "\<forall>i < length bottles. bs' ! i = (if int i \<in> set S then a else bottles ! i)"
    by blast
  have "\<forall>b \<in> set S. bs' ! nat b = a"
  proof
    fix b assume b: "b \<in> set S"
    with assms have "0 \<le> b" "nat b < length bottles" by (auto simp: in_range_def)
    with own b show "bs' ! nat b = a" by auto
  qed
  with run True show ?thesis by blast
next
  case False
  from acquireBottles_refused [OF assms False] False show ?thesis
    by (intro exI [of _ False] exI [of _ bottles]) simp
qed

theorem acquireBottles_all_or_nothing_witness:
  "in_range [- 1, - 1, - 1 :: int] 0 \<and> in_range [- 1, - 1, - 1 :: int] 1 \<and>
   acquireBottles 0 [0, 1] [- 1, - 1, - 1] = Inr (True, [0, 0, - 1]) \<and>
   in_range [0, 0, - 1 :: int] 1 \<and> in_range [0, 0, - 1 :: int] 2 \<and>
   acquireBottles 1 [1, 2] [0, 0, - 1] = Inr (False, [0, 0, - 1])"
proof -
  have h1: "\<forall>b \<in> set [0, 1]. in_range [- 1, - 1, - 1 :: int] b"
    and h2: "\<forall>b \<in> set [1, 2]. in_range [0, 0, - 1 :: int] b"
    by (simp_all add: in_range_def)
  from acquireBottles_all_or_nothing [OF h1, of 0]
  have "acquireBottles 0 [0, 1] [- 1, - 1, - 1] = Inr (True, [0, 0, - 1])"
    by (auto simp: acquireBottles_def vec_read_def vec_write_def in_range_def)
  moreover from acquireBottles_all_or_nothing [OF h2, of 1]
  have "acquireBottles 1 [1, 2] [0, 0, - 1] = Inr (False, [0, 0, - 1])"
    by (auto simp: acquireBottles_def vec_read_def vec_write_def in_range_def)
  ultimately show ?thesis by (simp add: in_range_def)
qed

subsection \<open>Release\<close>

text \<open>
  Claim C3. \<^verbatim>\<open>releaseBottles(a)\<close> always returns; it frees every bottle that \<open>a\<close> owns, so
  that afterwards no bottle is owned by the philosopher \<open>a\<close> (a philosopher id is not the
  free mark \<open>-1\<close>); when \<open>a\<close> owns nothing the pool is unchanged.
\<close>

theorem releaseBottles_frees_all:
  "\<exists>bottles'. releaseBottles a bottles = Inr bottles' \<and>
     length bottles' = length bottles \<and>
     (\<forall>i < length bottles. bottles ! i = a \<longrightarrow> bottles' ! i = - 1) \<and>
     (a \<noteq> - 1 \<longrightarrow> a \<notin> set bottles') \<and>
     (a \<notin> set bottles \<longrightarrow> bottles' = bottles)"
proof -
  let ?f = "\<lambda>owner. if owner = a then - 1 else owner"
  have "a \<notin> set bottles \<Longrightarrow> map ?f bottles = bottles"
    by (induction bottles) auto
  moreover have "a \<noteq> - 1 \<Longrightarrow> a \<notin> set (map ?f bottles)"
    by auto
  ultimately show ?thesis
    by (simp add: releaseBottles_eq)
qed

theorem releaseBottles_frees_all_witness:
  "releaseBottles 0 [0, 0, - 1] = Inr [- 1, - 1, - 1] \<and>
   (0 :: int) \<noteq> - 1 \<and> (0 :: int) \<notin> set [- 1, - 1, - 1] \<and>
   (2 :: int) \<notin> set [0, 0, - 1] \<and>
   releaseBottles 2 [0, 0, - 1] = Inr [0, 0, - 1]"
proof -
  from releaseBottles_frees_all [of 0 "[0, 0, - 1]"] obtain bs where
    bs: "releaseBottles 0 [0, 0, - 1] = Inr bs" "length bs = 3"
    and free: "\<forall>i < 3. [0, 0, - 1] ! i = (0::int) \<longrightarrow> bs ! i = - 1" and "0 \<notin> set bs"
    by auto
  have "releaseBottles 0 [0, 0, - 1] = Inr [- 1, - 1, - 1]"
    by (simp add: releaseBottles_eq)
  moreover from releaseBottles_frees_all [of 2 "[0, 0, - 1]"]
  have "releaseBottles 2 [0, 0, - 1] = Inr [0, 0, - 1]"
    by auto
  ultimately show ?thesis using bs by simp
qed

subsection \<open>Acquiring what one already owns\<close>

text \<open>
  Claim C4. If \<open>a\<close> already owns every bottle of \<open>S\<close>, \<^verbatim>\<open>acquireBottles(a, S)\<close> returns
  \<^verbatim>\<open>true\<close> and leaves the pool as it was. If \<open>S\<close> mixes bottles of \<open>a\<close> with free
  bottles, the call returns \<^verbatim>\<open>true\<close> too, and every bottle that \<open>a\<close> owned is still owned
  by \<open>a\<close>.
\<close>

theorem acquireBottles_reacquire:
  assumes "\<forall>b \<in> set S. in_range bottles b"
  shows "((\<forall>b \<in> set S. bottles ! nat b = a) \<longrightarrow>
            acquireBottles a S bottles = Inr (True, bottles)) \<and>
         ((\<forall>b \<in> set S. bottles ! nat b = a \<or> bottles ! nat b = - 1) \<longrightarrow>
            (\<exists>bottles'. acquireBottles a S bottles = Inr (True, bottles') \<and>
               length bottles' = length bottles \<and>
               (\<forall>i < length bottles. bottles ! i = a \<longrightarrow> bottles' ! i = a)))"
proof (intro conjI impI)
  assume mine: "\<forall>b \<in> set S. bottles ! nat b = a"
  then have avail: "\<forall>b \<in> set S. bottles ! nat b = - 1 \<or> bottles ! nat b = a" by simp
  from acquireBottles_granted [OF assms avail] obtain bs' where
    run: "acquireBottles a S bottles = Inr (True, bs')" and len: "length bs' = length bottles"
    and own: "\<forall>i < length bottles. bs' ! i = (if int i \<in> set S then a else bottles ! i)"
    by blast
  have "bs' = bottles"
  proof (rule nth_equalityI)
    show "length bs' = length bottles" by (rule len)
  next
    fix i assume "i < length bs'"
    with len have i: "i < length bottles" by simp
    show "bs' ! i = bottles ! i"
    proof (cases "int i \<in> set S")
      case True
      with mine have "bottles ! nat (int i) = a" by blast
      with own i True show ?thesis by simp
    next
      case False
      with own i show ?thesis by simp
    qed
  qed
  with run show "acquireBottles a S bottles = Inr (True, bottles)" by simp
next
  assume "\<forall>b \<in> set S. bottles ! nat b = a \<or> bottles ! nat b = - 1"
  then have avail: "\<forall>b \<in> set S. bottles ! nat b = - 1 \<or> bottles ! nat b = a" by blast
  from acquireBottles_granted [OF assms avail] obtain bs' where
    "acquireBottles a S bottles = Inr (True, bs')" "length bs' = length bottles"
    "\<forall>i < length bottles. bs' ! i = (if int i \<in> set S then a else bottles ! i)"
    by blast
  then show "\<exists>bottles'. acquireBottles a S bottles = Inr (True, bottles') \<and>
               length bottles' = length bottles \<and>
               (\<forall>i < length bottles. bottles ! i = a \<longrightarrow> bottles' ! i = a)"
    by auto
qed

theorem acquireBottles_reacquire_witness:
  "in_range [0, 0, - 1 :: int] 0 \<and> in_range [0, 0, - 1 :: int] 1 \<and>
   in_range [0, 0, - 1 :: int] 2 \<and>
   [0, 0, - 1 :: int] ! nat 0 = 0 \<and> [0, 0, - 1 :: int] ! nat 1 = 0 \<and>
   [0, 0, - 1 :: int] ! nat 2 = - 1 \<and>
   acquireBottles 0 [0, 1] [0, 0, - 1] = Inr (True, [0, 0, - 1]) \<and>
   acquireBottles 0 [1, 2] [0, 0, - 1] = Inr (True, [0, 0, 0])"
proof -
  have h1: "\<forall>b \<in> set [0, 1]. in_range [0, 0, - 1 :: int] b"
    and h2: "\<forall>b \<in> set [1, 2]. in_range [0, 0, - 1 :: int] b"
    by (simp_all add: in_range_def)
  have m1: "\<forall>b \<in> set [0, 1]. [0, 0, - 1 :: int] ! nat b = 0"
    and m2: "\<forall>b \<in> set [1, 2]. [0, 0, - 1 :: int] ! nat b = 0 \<or> [0, 0, - 1 :: int] ! nat b = - 1"
    by simp_all
  from acquireBottles_reacquire [OF h1, of 0] m1
  have "acquireBottles 0 [0, 1] [0, 0, - 1] = Inr (True, [0, 0, - 1])"
    by blast
  moreover from acquireBottles_reacquire [OF h2, of 0] m2
  have "\<exists>bs'. acquireBottles 0 [1, 2] [0, 0, - 1] = Inr (True, bs')"
    by blast
  then have "acquireBottles 0 [1, 2] [0, 0, - 1] = Inr (True, [0, 0, 0])"
    by (auto simp: acquireBottles_def vec_read_def vec_write_def in_range_def)
  ultimately show ?thesis by (simp add: in_range_def)
qed

subsection \<open>The empty request\<close>

text \<open>
  Claim C5. \<^verbatim>\<open>acquireBottles(a, {})\<close> returns \<^verbatim>\<open>true\<close> for every pool and every \<open>a\<close>, and
  the pool is unchanged.
\<close>

theorem acquireBottles_empty:
  "acquireBottles a [] bottles = Inr (True, bottles)"
  by (simp add: acquireBottles_def)

subsection \<open>Bottles that are not involved\<close>

text \<open>
  Claim C10. When \<^verbatim>\<open>acquireBottles(a, S)\<close> returns \<^verbatim>\<open>true\<close>, every bottle outside \<open>S\<close>
  keeps its owner; \<^verbatim>\<open>releaseBottles(a)\<close> returns and leaves every bottle that is free or
  owned by another philosopher as it was.
\<close>

theorem pool_frame:
  "(acquireBottles a S bottles = Inr (True, bottles') \<longrightarrow>
      length bottles' = length bottles \<and>
      (\<forall>i < length bottles. int i \<notin> set S \<longrightarrow> bottles' ! i = bottles ! i)) \<and>
   (\<exists>bottles''. releaseBottles a bottles = Inr bottles'' \<and>
      length bottles'' = length bottles \<and>
      (\<forall>i < length bottles. bottles ! i = - 1 \<or> bottles ! i \<noteq> a \<longrightarrow>
          bottles'' ! i = bottles ! i))"
proof -
  have "length bottles' = length bottles \<and>
      (\<forall>i < length bottles. int i \<notin> set S \<longrightarrow> bottles' ! i = bottles ! i)"
    if run: "acquireBottles a S bottles = Inr (True, bottles')"
  proof -
    from run have rng: "\<forall>b \<in> set S. in_range bottles b"
      by (rule acquireBottles_True_in_range)
    have "\<forall>b \<in> set S. bottles ! nat b = - 1 \<or> bottles ! nat b = a"
      using run acquireBottles_refused [OF rng, of a] by auto
    from acquireBottles_granted [OF rng this] run show ?thesis by auto
  qed
  moreover have "\<exists>bottles''. releaseBottles a bottles = Inr bottles'' \<and>
      length bottles'' = length bottles \<and>
      (\<forall>i < length bottles. bottles ! i = - 1 \<or> bottles ! i \<noteq> a \<longrightarrow>
          bottles'' ! i = bottles ! i)"
    by (auto simp: releaseBottles_eq)
  ultimately show ?thesis by blast
qed

theorem pool_frame_witness:
  "acquireBottles 1 [1, 2] [0, - 1, - 1] = Inr (True, [0, 1, 1]) \<and>
   int 0 \<notin> set [1, 2] \<and> [0, 1, 1] ! 0 = [0, - 1, - 1 :: int] ! 0 \<and>
   releaseBottles 0 [0, 1, - 1] = Inr [- 1, 1, - 1]"
proof -
  have run: "acquireBottles 1 [1, 2] [0, - 1, - 1] = Inr (True, [0, 1, 1])"
    by (simp add: acquireBottles_def vec_read_def vec_write_def in_range_def)
  have rel: "releaseBottles 0 [0, 1, - 1] = Inr [- 1, 1, - 1]"
    by (simp add: releaseBottles_eq)
  from pool_frame [of 1 "[1, 2]" "[0, - 1, - 1]" "[0, 1, 1]"] run
  have "[0, 1, 1] ! 0 = [0, - 1, - 1 :: int] ! 0" by simp
  moreover from pool_frame [of 0 "[]" "[0, 1, - 1]" "[0, 1, - 1]"] rel
  have "[- 1, 1, - 1] ! 1 = [0, 1, - 1 :: int] ! 1" by simp
  ultimately show ?thesis using run rel by simp
qed

subsection \<open>Mutual exclusion along a run\<close>

lemma pool_step_Acquire_inv:
  assumes inv: "pool_inv bs G" and a: "a \<noteq> - 1" and rng: "\<forall>b \<in> set S. in_range bs b"
  shows "\<exists>bs' G'. pool_step (Acquire a S) (bs, G) = Inr (bs', G') \<and>
     length bs' = length bs \<and> pool_inv bs' G'"
proof (cases "\<forall>b \<in> set S. bs ! nat b = - 1 \<or> bs ! nat b = a")
  case False
  from acquireBottles_refused [OF rng False] inv show ?thesis by simp
next
  case True
  from acquireBottles_granted [OF rng True] obtain bs' where
    run: "acquireBottles a S bs = Inr (True, bs')" and len: "length bs' = length bs"
    and own: "\<forall>i < length bs. bs' ! i = (if int i \<in> set S then a else bs ! i)"
    by blast
  let ?G' = "map (Pair a) S @ G"
  have part1: "x \<noteq> - 1 \<and> in_range bs' b \<and> bs' ! nat b = x" if "(x, b) \<in> set ?G'" for x b
  proof (cases "(x, b) \<in> set G")
    case True
    with inv have x: "x \<noteq> - 1" and b: "in_range bs b" and o: "bs ! nat b = x"
      by (auto simp: pool_inv_def)
    from b have nb: "nat b < length bs" "int (nat b) = b" by (simp_all add: in_range_def)
    have "bs' ! nat b = x"
    proof (cases "b \<in> set S")
      case True
      with \<open>\<forall>b \<in> set S. bs ! nat b = - 1 \<or> bs ! nat b = a\<close> o x have "x = a" by auto
      with own nb True show ?thesis by simp
    next
      case False
      with own nb o show ?thesis by simp
    qed
    with x b len show ?thesis by (simp add: in_range_def)
  next
    case False
    with that have xa: "x = a" and bS: "b \<in> set S" by auto
    from bS rng have b: "in_range bs b" by simp
    then have nb: "nat b < length bs" "int (nat b) = b" by (simp_all add: in_range_def)
    with own bS have "bs' ! nat b = a" by simp
    with xa a b len show ?thesis by (simp add: in_range_def)
  qed
  have part2: "(bs' ! i, int i) \<in> set ?G'" if "i < length bs'" "bs' ! i \<noteq> - 1" for i
  proof (cases "int i \<in> set S")
    case True
    with own that len have "bs' ! i = a" by simp
    with True show ?thesis by auto
  next
    case False
    with own that len have "bs' ! i = bs ! i" by simp
    with inv that len show ?thesis by (auto simp: pool_inv_def)
  qed
  from part1 part2 have "pool_inv bs' ?G'"
    unfolding pool_inv_def using len by blast
  with run len show ?thesis by simp
qed

lemma pool_step_Release_inv:
  assumes inv: "pool_inv bs G"
  shows "\<exists>bs' G'. pool_step (Release a) (bs, G) = Inr (bs', G') \<and>
     length bs' = length bs \<and> pool_inv bs' G'"
proof -
  let ?bs' = "map (\<lambda>owner. if owner = a then - 1 else owner) bs"
  let ?G' = "filter (\<lambda>(x, b). x \<noteq> a) G"
  have "x \<noteq> - 1 \<and> in_range ?bs' b \<and> ?bs' ! nat b = x" if "(x, b) \<in> set ?G'" for x b
  proof -
    from that have xa: "x \<noteq> a" and "(x, b) \<in> set G" by auto
    with inv have "x \<noteq> - 1" "in_range bs b" "bs ! nat b = x"
      unfolding pool_inv_def by blast+
    with xa show ?thesis by (simp add: in_range_def)
  qed
  moreover have "(?bs' ! i, int i) \<in> set ?G'" if "i < length ?bs'" "?bs' ! i \<noteq> - 1" for i
  proof -
    from that have i: "i < length bs" by simp
    with that(2) have o: "bs ! i \<noteq> a" "?bs' ! i = bs ! i" "bs ! i \<noteq> - 1"
      by (auto split: if_splits)
    with inv i have "(bs ! i, int i) \<in> set G" unfolding pool_inv_def by blast
    with o show ?thesis by simp
  qed
  ultimately have "pool_inv ?bs' ?G'"
    unfolding pool_inv_def by blast
  then show ?thesis by (simp add: releaseBottles_eq)
qed

lemma pool_run_inv:
  assumes "pool_inv bs G"
    and "\<forall>a S. Acquire a S \<in> set calls \<longrightarrow> a \<noteq> - 1 \<and> (\<forall>b \<in> set S. in_range bs b)"
  shows "\<exists>bs' G'. pool_run calls (bs, G) = Inr (bs', G') \<and>
     length bs' = length bs \<and> pool_inv bs' G'"
  using assms
proof (induction calls arbitrary: bs G)
  case Nil
  then show ?case by simp
next
  case (Cons c calls)
  have "\<exists>bs1 G1. pool_step c (bs, G) = Inr (bs1, G1) \<and> length bs1 = length bs \<and> pool_inv bs1 G1"
  proof (cases c)
    case (Acquire a S)
    with Cons.prems(2) have "a \<noteq> - 1" "\<forall>b \<in> set S. in_range bs b" by auto
    with Cons.prems(1) show ?thesis
      unfolding Acquire by (rule pool_step_Acquire_inv)
  next
    case (Release a)
    from Cons.prems(1) show ?thesis
      unfolding Release by (rule pool_step_Release_inv)
  qed
  then obtain bs1 G1 where step: "pool_step c (bs, G) = Inr (bs1, G1)"
    and len1: "length bs1 = length bs" and inv1: "pool_inv bs1 G1"
    by blast
  from Cons.prems(2) len1
  have "\<forall>a S. Acquire a S \<in> set calls \<longrightarrow> a \<noteq> - 1 \<and> (\<forall>b \<in> set S. in_range bs1 b)"
    by (simp add: in_range_def)
  from Cons.IH [OF inv1 this] obtain bs' G' where
    "pool_run calls (bs1, G1) = Inr (bs', G')" "length bs' = length bs1" "pool_inv bs' G'"
    by blast
  with step len1 show ?case by simp
qed

lemma pool_inv_initial: "pool_inv (replicate n (- 1)) []"
  by (simp add: pool_inv_def)

lemma pool_inv_holders:
  assumes "pool_inv bs G" and "i < length bs"
  shows "{a. (a, int i) \<in> set G} = (if bs ! i = - 1 then {} else {bs ! i})"
proof -
  have "a = bs ! i \<and> bs ! i \<noteq> - 1" if "(a, int i) \<in> set G" for a
    using assms(1) that unfolding pool_inv_def by fastforce
  moreover have "(bs ! i, int i) \<in> set G" if "bs ! i \<noteq> - 1"
    using assms that unfolding pool_inv_def by blast
  ultimately show ?thesis by auto
qed

text \<open>
  Claim C2. Start from the pool \<^verbatim>\<open>Bottles(n)\<close>, all bottles free, and make any sequence of
  \<^verbatim>\<open>acquireBottles\<close> and \<^verbatim>\<open>releaseBottles\<close> calls, the acquiring callers being
  philosophers (not the free mark \<open>-1\<close>) and the requested bottles being bottles of the
  pool. Then every call returns, and after every step each bottle is either free and
  granted to nobody, or the philosophers it is granted to are exactly its one recorded
  owner: no bottle is ever held by two philosophers.
\<close>

theorem pool_mutual_exclusion:
  assumes "0 \<le> n"
    and "\<forall>a S. Acquire a S \<in> set calls \<longrightarrow> a \<noteq> - 1 \<and> (\<forall>b \<in> set S. 0 \<le> b \<and> b < n)"
  shows "\<exists>bottles0. Bottles n = Inr bottles0 \<and>
     (\<forall>k \<le> length calls. \<exists>bottles granted.
        pool_run (take k calls) (bottles0, []) = Inr (bottles, granted) \<and>
        length bottles = nat n \<and>
        (\<forall>i < nat n. {a. (a, int i) \<in> set granted} =
           (if bottles ! i = - 1 then {} else {bottles ! i})))"
proof -
  let ?b0 = "replicate (nat n) (- 1 :: int)"
  from assms(1) have init: "Bottles n = Inr ?b0" by (simp add: Bottles_def)
  have "\<exists>bottles granted.
        pool_run (take k calls) (?b0, []) = Inr (bottles, granted) \<and>
        length bottles = nat n \<and>
        (\<forall>i < nat n. {a. (a, int i) \<in> set granted} =
           (if bottles ! i = - 1 then {} else {bottles ! i}))" for k
  proof -
    have "\<forall>a S. Acquire a S \<in> set (take k calls) \<longrightarrow>
        a \<noteq> - 1 \<and> (\<forall>b \<in> set S. in_range ?b0 b)"
    proof (intro allI impI)
      fix a S assume "Acquire a S \<in> set (take k calls)"
      then have "Acquire a S \<in> set calls" by (rule in_set_takeD)
      with assms(2) have "a \<noteq> - 1" "\<forall>b \<in> set S. 0 \<le> b \<and> b < n" by blast+
      then show "a \<noteq> - 1 \<and> (\<forall>b \<in> set S. in_range ?b0 b)"
        by (auto simp: in_range_def)
    qed
    from pool_run_inv [OF pool_inv_initial this] obtain bs G where
      run: "pool_run (take k calls) (?b0, []) = Inr (bs, G)"
      and len: "length bs = nat n" and inv: "pool_inv bs G"
      by auto
    from pool_inv_holders [OF inv] len
    have "\<forall>i < nat n. {a. (a, int i) \<in> set G} = (if bs ! i = - 1 then {} else {bs ! i})"
      by simp
    with run len show ?thesis by blast
  qed
  with init show ?thesis by blast
qed

theorem pool_mutual_exclusion_witness:
  "(0 :: int) \<le> 3 \<and>
   Bottles 3 = Inr [- 1, - 1, - 1] \<and>
   pool_run (take 2 [Acquire 0 [0, 1], Acquire 1 [1, 2], Release 0, Acquire 1 [1, 2]])
     ([- 1, - 1, - 1], []) = Inr ([0, 0, - 1], [(0, 0), (0, 1)]) \<and>
   pool_run (take 4 [Acquire 0 [0, 1], Acquire 1 [1, 2], Release 0, Acquire 1 [1, 2]])
     ([- 1, - 1, - 1], []) = Inr ([- 1, 1, 1], [(1, 1), (1, 2)]) \<and>
   {a. (a, int 1) \<in> set [(1, 1), (1, 2 :: int)]} = {1 :: int}"
proof -
  let ?calls = "[Acquire 0 [0, 1], Acquire 1 [1, 2], Release 0, Acquire 1 [1, 2]]"
  have h1: "(0 :: int) \<le> 3" by simp
  have h2: "\<forall>a S. Acquire a S \<in> set ?calls \<longrightarrow> a \<noteq> - 1 \<and> (\<forall>b \<in> set S. 0 \<le> b \<and> b < 3)"
    by auto
  have b0: "Bottles 3 = Inr [- 1, - 1, - 1]"
    by (simp add: Bottles_def numeral_3_eq_3)
  have a1: "acquireBottles 0 [0, 1] [- 1, - 1, - 1] = Inr (True, [0, 0, - 1])"
    and a2: "acquireBottles 1 [1, 2] [0, 0, - 1] = Inr (False, [0, 0, - 1])"
    and a3: "acquireBottles 1 [1, 2] [- 1, - 1, - 1] = Inr (True, [- 1, 1, 1])"
    by (simp_all add: acquireBottles_def vec_read_def vec_write_def in_range_def)
  have r2: "pool_run (take 2 ?calls) ([- 1, - 1, - 1], []) = Inr ([0, 0, - 1], [(0, 0), (0, 1)])"
    by (simp add: a1 a2 numeral_2_eq_2)
  have r4: "pool_run (take 4 ?calls) ([- 1, - 1, - 1], []) = Inr ([- 1, 1, 1], [(1, 1), (1, 2)])"
    by (simp add: a1 a2 a3 releaseBottles_eq)
  from pool_mutual_exclusion [OF h1 h2] b0 obtain bs G where
    "pool_run (take 4 ?calls) ([- 1, - 1, - 1], []) = Inr (bs, G)"
    "\<forall>i < nat 3. {a. (a, int i) \<in> set G} = (if bs ! i = - 1 then {} else {bs ! i})"
    by force
  with r4 have "{a. (a, int 1) \<in> set [(1, 1), (1, 2 :: int)]} = {1 :: int}"
    by (auto split: if_splits)
  with h1 b0 r2 r4 show ?thesis by blast
qed

section \<open>The graph\<close>

subsection \<open>Assignment into a map\<close>

lemma map_assign_member: "(k, v) \<in> set (map_assign k v m)"
  by (induction m) auto

lemma map_assign_overwrite: "map_assign k v' (map_assign k v m) = map_assign k v' m"
  by (induction m) auto

lemma addEdge_eq:
  assumes "in_range g a" and "in_range g b"
  shows "addEdge a b r g =
     Inr ((g[nat a := map_assign b r (g ! nat a)])
            [nat b := map_assign a r ((g[nat a := map_assign b r (g ! nat a)]) ! nat b)])"
  using assms by (simp add: addEdge_def vec_read_def vec_write_def in_range_def)

lemma getAdjacentBottles_eq:
  "in_range g p \<Longrightarrow> getAdjacentBottles g p = Inr (map snd (g ! nat p))"
  by (simp add: getAdjacentBottles_def vec_read_def)

lemma addEdge_entries:
  assumes "in_range g a" and "in_range g b" and "addEdge a b r g = Inr g'"
  shows "length g' = length g" and "(b, r) \<in> set (g' ! nat a)" and "(a, r) \<in> set (g' ! nat b)"
proof -
  from assms have g': "g' = (g[nat a := map_assign b r (g ! nat a)])
            [nat b := map_assign a r ((g[nat a := map_assign b r (g ! nat a)]) ! nat b)]"
    by (simp add: addEdge_eq)
  from assms(1,2) have a: "nat a < length g" and b: "nat b < length g"
    by (simp_all add: in_range_def)
  show "length g' = length g" by (simp add: g')
  show "(a, r) \<in> set (g' ! nat b)" using b by (simp add: g' map_assign_member)
  show "(b, r) \<in> set (g' ! nat a)"
  proof (cases "nat a = nat b")
    case True
    moreover from assms(1,2) have "0 \<le> a" "0 \<le> b" by (simp_all add: in_range_def)
    ultimately have "a = b" by arith
    with a show ?thesis by (simp add: g' map_assign_member)
  next
    case False
    with a show ?thesis by (simp add: g' map_assign_member)
  qed
qed

lemma addEdge_adjacent:
  assumes "in_range g a" and "in_range g b"
  shows "\<exists>g'. addEdge a b r g = Inr g' \<and>
     (\<exists>A. getAdjacentBottles g' a = Inr A \<and> r \<in> set A) \<and>
     (\<exists>B. getAdjacentBottles g' b = Inr B \<and> r \<in> set B)"
proof -
  from addEdge_eq [OF assms] obtain g' where run: "addEdge a b r g = Inr g'" by blast
  note e = addEdge_entries [OF assms run]
  from e(1) assms have rng: "in_range g' a" "in_range g' b" by (simp_all add: in_range_def)
  from e(2) have "r \<in> set (map snd (g' ! nat a))" by force
  moreover from e(3) have "r \<in> set (map snd (g' ! nat b))" by force
  ultimately show ?thesis using run rng by (simp add: getAdjacentBottles_eq)
qed

subsection \<open>Maps with one entry per key\<close>

lemma map_assign_keys: "fst ` set (map_assign k v m) = insert k (fst ` set m)"
proof (induction m)
  case Nil
  show ?case by simp
next
  case (Cons p m)
  obtain k' v' where p: "p = (k', v')" by (cases p)
  show ?case
  proof (cases "k < k'")
    case True
    then show ?thesis by (simp add: p)
  next
    case False
    show ?thesis
    proof (cases "k = k'")
      case True
      then show ?thesis by (simp add: p)
    next
      case ne: False
      with False Cons.IH show ?thesis by (simp add: p insert_commute)
    qed
  qed
qed

lemma map_ok_map_assign: "map_ok m \<Longrightarrow> map_ok (map_assign k v m)"
proof (induction m)
  case Nil
  then show ?case by (simp add: map_ok_def)
next
  case (Cons p m)
  obtain k' v' where p: "p = (k', v')" by (cases p)
  from Cons.prems have tail: "map_ok m" and above: "\<forall>x \<in> fst ` set m. k' < x"
    by (auto simp: map_ok_def p)
  show ?case
  proof (cases "k < k'")
    case True
    with Cons.prems above show ?thesis by (auto simp: map_ok_def p)
  next
    case False
    show ?thesis
    proof (cases "k = k'")
      case True
      with Cons.prems show ?thesis by (auto simp: map_ok_def p)
    next
      case ne: False
      with False have lt: "k' < k" by simp
      from Cons.IH [OF tail] have "sorted_wrt (<) (map fst (map_assign k v m))"
        by (simp add: map_ok_def)
      moreover from above lt have "\<forall>x \<in> fst ` set (map_assign k v m). k' < x"
        by (simp add: map_assign_keys)
      ultimately show ?thesis using False ne by (simp add: map_ok_def p)
    qed
  qed
qed

lemma map_assign_entries:
  "map_ok m \<Longrightarrow> set (map_assign k v m) = insert (k, v) {p \<in> set m. fst p \<noteq> k}"
proof (induction m)
  case Nil
  then show ?case by simp
next
  case (Cons p m)
  obtain k' v' where p: "p = (k', v')" by (cases p)
  from Cons.prems have tail: "map_ok m" and above: "\<forall>q \<in> set m. k' < fst q"
    by (auto simp: map_ok_def p)
  show ?case
  proof (cases "k < k'")
    case True
    with above have "\<forall>q \<in> set m. fst q \<noteq> k" by auto
    with True show ?thesis by (auto simp: p)
  next
    case False
    show ?thesis
    proof (cases "k = k'")
      case True
      with above have "\<forall>q \<in> set m. fst q \<noteq> k" by auto
      with True show ?thesis by (auto simp: p)
    next
      case ne: False
      with False Cons.IH [OF tail] show ?thesis by (auto simp: p)
    qed
  qed
qed

lemma graph_ok_update: "graph_ok g \<Longrightarrow> map_ok m \<Longrightarrow> graph_ok (g[i := m])"
  unfolding graph_ok_def using set_update_subset_insert [of g i m] by auto

lemma graph_ok_Graph: "Graph n = Inr g \<Longrightarrow> graph_ok g"
  by (auto simp: Graph_def graph_ok_def map_ok_def split: if_splits)

lemma graph_ok_addEdge:
  assumes "graph_ok g" and "addEdge a b r g = Inr g'"
  shows "graph_ok g'"
proof -
  from assms(2) have rng: "in_range g a" "in_range g b"
    by (auto simp: addEdge_def vec_read_def vec_write_def in_range_def split: if_splits)
  let ?g1 = "g[nat a := map_assign b r (g ! nat a)]"
  from rng assms(1) have "map_ok (g ! nat a)" by (simp add: graph_ok_def in_range_def)
  with assms(1) have ok1: "graph_ok ?g1" by (simp add: graph_ok_update map_ok_map_assign)
  moreover from rng have "nat b < length ?g1" by (simp add: in_range_def)
  ultimately have "map_ok (?g1 ! nat b)" by (simp add: graph_ok_def)
  with ok1 have "graph_ok (?g1[nat b := map_assign a r (?g1 ! nat b)])"
    by (simp add: graph_ok_update map_ok_map_assign)
  with assms(2) rng show ?thesis by (simp add: addEdge_eq)
qed

lemma addEdge_twice:
  assumes "in_range g a" and "in_range g b"
  shows "\<exists>g1 g2. addEdge a b r1 g = Inr g1 \<and> addEdge a b r2 g1 = Inr g2 \<and>
     addEdge a b r2 g = Inr g2 \<and> length g2 = length g \<and>
     g2 ! nat a = map_assign b r2 (g ! nat a) \<and>
     g2 ! nat b = map_assign a r2 (g ! nat b)"
proof -
  from addEdge_eq [OF assms] obtain g1 where g1: "addEdge a b r1 g = Inr g1" by blast
  from addEdge_entries(1) [OF assms g1] assms
  have rng1: "in_range g1 a" "in_range g1 b" by (simp_all add: in_range_def)
  from addEdge_eq [OF rng1] obtain g2 where g2: "addEdge a b r2 g1 = Inr g2" by blast
  from assms have a: "nat a < length g" and b: "nat b < length g"
    by (simp_all add: in_range_def)
  show ?thesis
  proof (cases "nat a = nat b")
    case True
    moreover from assms have "0 \<le> a" "0 \<le> b" by (simp_all add: in_range_def)
    ultimately have ab: "a = b" by arith
    from g1 assms a have "g1 = g[nat a := map_assign a r1 (g ! nat a)]"
      by (simp add: addEdge_eq ab map_assign_overwrite)
    with g2 rng1 a have eq: "g2 = g[nat a := map_assign a r2 (g ! nat a)]"
      by (simp add: addEdge_eq ab map_assign_overwrite)
    with assms a have "addEdge a b r2 g = Inr g2"
      by (simp add: addEdge_eq ab map_assign_overwrite)
    with g1 g2 eq a show ?thesis by (simp add: ab)
  next
    case False
    from g1 assms a b False have "g1 = g[nat a := map_assign b r1 (g ! nat a),
        nat b := map_assign a r1 (g ! nat b)]"
      by (simp add: addEdge_eq)
    with g2 rng1 a b False have eq: "g2 = g[nat a := map_assign b r2 (g ! nat a),
        nat b := map_assign a r2 (g ! nat b)]"
      by (simp add: addEdge_eq map_assign_overwrite list_update_swap [of "nat a" "nat b"])
    with assms a b False have "addEdge a b r2 g = Inr g2" by (simp add: addEdge_eq)
    with g1 g2 eq a b False show ?thesis by simp
  qed
qed

subsection \<open>An edge is seen from both ends\<close>

text \<open>
  Claim C6. For philosophers \<open>a\<close> and \<open>b\<close> of the graph and any bottle \<open>r\<close>,
  \<^verbatim>\<open>addEdge(a, b, r)\<close> returns, and afterwards \<open>r\<close> is among the adjacent bottles of \<open>a\<close>
  and among those of \<open>b\<close>.
\<close>

theorem addEdge_symmetric:
  assumes "in_range g a" and "in_range g b"
  shows "\<exists>g'. addEdge a b r g = Inr g' \<and>
     (\<exists>A. getAdjacentBottles g' a = Inr A \<and> r \<in> set A) \<and>
     (\<exists>B. getAdjacentBottles g' b = Inr B \<and> r \<in> set B)"
  using assms by (rule addEdge_adjacent)

theorem addEdge_symmetric_witness:
  "in_range ([[], [], []] :: adjacency) 1 \<and> in_range ([[], [], []] :: adjacency) 2 \<and>
   addEdge 1 2 7 [[], [], []] = Inr [[], [(2, 7)], [(1, 7)]] \<and>
   getAdjacentBottles [[], [(2, 7)], [(1, 7)]] 1 = Inr [7] \<and>
   getAdjacentBottles [[], [(2, 7)], [(1, 7)]] 2 = Inr [7]"
proof -
  have h: "in_range ([[], [], []] :: adjacency) 1" "in_range ([[], [], []] :: adjacency) 2"
    by (simp_all add: in_range_def)
  have run: "addEdge 1 2 7 [[], [], []] = Inr [[], [(2, 7)], [(1, 7)]]"
    by (simp add: addEdge_def vec_read_def vec_write_def in_range_def)
  from addEdge_symmetric [OF h, of 7] run h show ?thesis
    by (auto simp: getAdjacentBottles_def vec_read_def in_range_def)
qed

subsection \<open>Ids that are not checked\<close>

text \<open>
  Claim C7 says that an id outside the graph makes \<^verbatim>\<open>getAdjacentBottles\<close> fail with an
  out-of-range error, and that invalid ids are reported while the graph is built. The
  code indexes the vector with \<^verbatim>\<open>operator[]\<close>: for a graph of two philosophers,
  \<^verbatim>\<open>getAdjacentBottles(5)\<close> is undefined behaviour and raises nothing, and
  \<^verbatim>\<open>addEdge(0, 1, -1)\<close> stores the bottle id \<open>-1\<close> without complaint.
\<close>

theorem unregistered_id_counterexample:
  "Graph 2 = Inr [[], []] \<and>
   getAdjacentBottles [[], []] 5 = Inl Undefined_Behaviour \<and>
   getAdjacentBottles [[], []] 5 \<noteq> Inl (Thrown Out_Of_Range) \<and>
   addEdge 0 1 (- 1) [[], []] = Inr [[(1, - 1)], [(0, - 1)]]"
  by (simp add: Graph_def getAdjacentBottles_def addEdge_def vec_read_def vec_write_def
      in_range_def numeral_2_eq_2)

text \<open>
  Claim C7, amended. With a philosopher id outside the graph, \<^verbatim>\<open>getAdjacentBottles\<close> and
  \<^verbatim>\<open>addEdge\<close> index the vector unchecked: the call is undefined behaviour and no
  out-of-range error is raised. With both philosopher ids inside the graph, \<^verbatim>\<open>addEdge\<close>
  returns for every bottle id: the bottle id is not validated.
\<close>

theorem unregistered_id_unchecked:
  "(\<not> in_range g p \<longrightarrow> getAdjacentBottles g p = Inl Undefined_Behaviour) \<and>
   (\<not> in_range g a \<or> \<not> in_range g b \<longrightarrow> addEdge a b r g = Inl Undefined_Behaviour) \<and>
   (in_range g a \<and> in_range g b \<longrightarrow> (\<exists>g'. addEdge a b r g = Inr g'))"
proof (intro conjI impI)
  assume "\<not> in_range g p"
  then show "getAdjacentBottles g p = Inl Undefined_Behaviour"
    by (simp add: getAdjacentBottles_def vec_read_def)
next
  assume "\<not> in_range g a \<or> \<not> in_range g b"
  then show "addEdge a b r g = Inl Undefined_Behaviour"
    by (auto simp: addEdge_def vec_read_def vec_write_def in_range_def)
next
  assume "in_range g a \<and> in_range g b"
  then show "\<exists>g'. addEdge a b r g = Inr g'"
    by (simp add: addEdge_eq)
qed

theorem unregistered_id_unchecked_witness:
  "\<not> in_range ([[], []] :: adjacency) 5 \<and>
   getAdjacentBottles [[], []] 5 = Inl Undefined_Behaviour \<and>
   addEdge 0 7 3 [[], []] = Inl Undefined_Behaviour \<and>
   in_range ([[], []] :: adjacency) 0 \<and> in_range ([[], []] :: adjacency) 1 \<and>
   (\<exists>g'. addEdge 0 1 (- 1) [[], []] = Inr g')"
proof -
  have h: "\<not> in_range ([[], []] :: adjacency) 5" "\<not> in_range ([[], []] :: adjacency) 7"
    "in_range ([[], []] :: adjacency) 0" "in_range ([[], []] :: adjacency) 1"
    by (simp_all add: in_range_def)
  from h unregistered_id_unchecked [of "[[], []]" 5 0 7 3]
    unregistered_id_unchecked [of "[[], []]" 5 0 1 "- 1"]
  show ?thesis by simp
qed

subsection \<open>One bottle per edge\<close>

text \<open>
  Claim C8 says that after \<^verbatim>\<open>addEdge(a, b, r1)\<close> and \<^verbatim>\<open>addEdge(a, b, r2)\<close> both bottles
  are adjacent to \<open>a\<close>. The map of \<open>a\<close> holds one bottle per neighbour, and the second call
  overwrites the first: in a graph of two philosophers, after \<^verbatim>\<open>addEdge(0, 1, 0)\<close> and
  \<^verbatim>\<open>addEdge(0, 1, 1)\<close> the adjacent bottles of philosopher 0 are \<open>[1]\<close>.
\<close>

theorem second_bottle_counterexample:
  "Graph 2 = Inr [[], []] \<and>
   addEdge 0 1 0 [[], []] = Inr [[(1, 0)], [(0, 0)]] \<and>
   addEdge 0 1 1 [[(1, 0)], [(0, 0)]] = Inr [[(1, 1)], [(0, 1)]] \<and>
   getAdjacentBottles [[(1, 1)], [(0, 1)]] 0 = Inr [1] \<and>
   0 \<notin> set [1 :: int]"
  by (simp add: Graph_def getAdjacentBottles_def addEdge_def vec_read_def vec_write_def
      in_range_def numeral_2_eq_2)

text \<open>
  Claim C8, amended. For philosophers \<open>a\<close> and \<open>b\<close> of the graph, \<^verbatim>\<open>addEdge(a, b, r1)\<close>
  followed by \<^verbatim>\<open>addEdge(a, b, r2)\<close> gives the graph that \<^verbatim>\<open>addEdge(a, b, r2)\<close> alone
  gives, and \<open>r2\<close> is among the adjacent bottles of \<open>a\<close> and of \<open>b\<close>. In a graph of
  \<^verbatim>\<open>std::map\<close> states (as \<^verbatim>\<open>Graph\<close> and \<^verbatim>\<open>addEdge\<close> build it) the edge then carries
  \<open>r2\<close> only: the entry of \<open>a\<close> for the neighbour \<open>b\<close>, and that of \<open>b\<close> for \<open>a\<close>, is
  \<open>r2\<close> and nothing else, so \<open>r1\<close> is no longer carried by that edge; the entries for
  the other neighbours are those from before the two calls.
\<close>

theorem addEdge_replaces:
  assumes "in_range g a" and "in_range g b"
  shows "\<exists>g1 g2. addEdge a b r1 g = Inr g1 \<and> addEdge a b r2 g1 = Inr g2 \<and>
     addEdge a b r2 g = Inr g2 \<and>
     (\<exists>A. getAdjacentBottles g2 a = Inr A \<and> r2 \<in> set A) \<and>
     (\<exists>B. getAdjacentBottles g2 b = Inr B \<and> r2 \<in> set B) \<and>
     (graph_ok g \<longrightarrow>
        graph_ok g2 \<and>
        (\<forall>r. (b, r) \<in> set (g2 ! nat a) \<longleftrightarrow> r = r2) \<and>
        (\<forall>r. (a, r) \<in> set (g2 ! nat b) \<longleftrightarrow> r = r2) \<and>
        set (g2 ! nat a) = insert (b, r2) {p \<in> set (g ! nat a). fst p \<noteq> b} \<and>
        set (g2 ! nat b) = insert (a, r2) {p \<in> set (g ! nat b). fst p \<noteq> a})"
proof -
  from addEdge_twice [OF assms, of r1 r2] obtain g1 g2 where
    g1: "addEdge a b r1 g = Inr g1" and g2: "addEdge a b r2 g1 = Inr g2"
    and direct: "addEdge a b r2 g = Inr g2"
    and at_a: "g2 ! nat a = map_assign b r2 (g ! nat a)"
    and at_b: "g2 ! nat b = map_assign a r2 (g ! nat b)"
    by blast
  from addEdge_adjacent [OF assms, of r2] direct
  have adj: "(\<exists>A. getAdjacentBottles g2 a = Inr A \<and> r2 \<in> set A) \<and>
     (\<exists>B. getAdjacentBottles g2 b = Inr B \<and> r2 \<in> set B)"
    by simp
  have ok: "graph_ok g2 \<and>
        (\<forall>r. (b, r) \<in> set (g2 ! nat a) \<longleftrightarrow> r = r2) \<and>
        (\<forall>r. (a, r) \<in> set (g2 ! nat b) \<longleftrightarrow> r = r2) \<and>
        set (g2 ! nat a) = insert (b, r2) {p \<in> set (g ! nat a). fst p \<noteq> b} \<and>
        set (g2 ! nat b) = insert (a, r2) {p \<in> set (g ! nat b). fst p \<noteq> a}"
    if wf: "graph_ok g"
  proof -
    from wf assms have "map_ok (g ! nat a)" "map_ok (g ! nat b)"
      by (simp_all add: graph_ok_def in_range_def)
    then have sa: "set (g2 ! nat a) = insert (b, r2) {p \<in> set (g ! nat a). fst p \<noteq> b}"
      and sb: "set (g2 ! nat b) = insert (a, r2) {p \<in> set (g ! nat b). fst p \<noteq> a}"
      by (simp_all add: at_a at_b map_assign_entries)
    from sa have "\<forall>r. (b, r) \<in> set (g2 ! nat a) \<longleftrightarrow> r = r2" by auto
    moreover from sb have "\<forall>r. (a, r) \<in> set (g2 ! nat b) \<longleftrightarrow> r = r2" by auto
    moreover from wf direct have "graph_ok g2" by (rule graph_ok_addEdge)
    ultimately show ?thesis using sa sb by blast
  qed
  from g1 g2 direct adj ok show ?thesis by blast
qed

theorem addEdge_replaces_witness:
  "in_range ([[(1, 0), (2, 5)], [(0, 0)], [(0, 5)]] :: adjacency) 0 \<and>
   in_range ([[(1, 0), (2, 5)], [(0, 0)], [(0, 5)]] :: adjacency) 1 \<and>
   graph_ok [[(1, 0), (2, 5)], [(0, 0)], [(0, 5)]] \<and>
   addEdge 0 1 7 [[(1, 0), (2, 5)], [(0, 0)], [(0, 5)]] =
     Inr [[(1, 7), (2, 5)], [(0, 7)], [(0, 5)]] \<and>
   addEdge 0 1 8 [[(1, 7), (2, 5)], [(0, 7)], [(0, 5)]] =
     Inr [[(1, 8), (2, 5)], [(0, 8)], [(0, 5)]] \<and>
   addEdge 0 1 8 [[(1, 0), (2, 5)], [(0, 0)], [(0, 5)]] =
     Inr [[(1, 8), (2, 5)], [(0, 8)], [(0, 5)]] \<and>
   getAdjacentBottles [[(1, 8), (2, 5)], [(0, 8)], [(0, 5)]] 0 = Inr [8, 5] \<and>
   getAdjacentBottles [[(1, 8), (2, 5)], [(0, 8)], [(0, 5)]] 1 = Inr [8] \<and>
   (1, 7) \<notin> set (([[(1, 8), (2, 5)], [(0, 8)], [(0, 5)]] :: adjacency) ! nat 0) \<and>
   (0, 7) \<notin> set (([[(1, 8), (2, 5)], [(0, 8)], [(0, 5)]] :: adjacency) ! nat 1)"
proof -
  let ?g = "[[(1, 0), (2, 5)], [(0, 0)], [(0, 5)]] :: adjacency"
  let ?g2 = "[[(1, 8), (2, 5)], [(0, 8)], [(0, 5)]] :: adjacency"
  have h: "in_range ?g 0" "in_range ?g 1"
    by (simp_all add: in_range_def)
  have wf: "graph_ok ?g"
    by (simp add: graph_ok_def map_ok_def)
  have run: "addEdge 0 1 7 ?g = Inr [[(1, 7), (2, 5)], [(0, 7)], [(0, 5)]]"
    "addEdge 0 1 8 [[(1, 7), (2, 5)], [(0, 7)], [(0, 5)]] = Inr ?g2"
    "addEdge 0 1 8 ?g = Inr ?g2"
    by (simp_all add: addEdge_def vec_read_def vec_write_def in_range_def)
  from addEdge_replaces [OF h, of 7 8] run wf
  have "\<forall>r. (1, r) \<in> set (?g2 ! nat 0) \<longleftrightarrow> r = 8"
    and "\<forall>r. (0, r) \<in> set (?g2 ! nat 1) \<longleftrightarrow> r = 8"
    by auto
  then have "(1, 7) \<notin> set (?g2 ! nat 0)" "(0, 7) \<notin> set (?g2 ! nat 1)"
    by auto
  with h wf run show ?thesis
    by (simp add: getAdjacentBottles_def vec_read_def in_range_def)
qed

section \<open>The philosopher\<close>

subsection \<open>Choosing the bottles\<close>

lemma select_loop_eq:
  assumes "length adj \<le> length indices" and "\<forall>j \<in> set indices. in_range adj j"
  shows "select_loop i limit adj indices req =
     Inr (req @ map (\<lambda>j. adj ! nat j) (take (min limit (length adj) - i) (drop i indices)))"
  using assms
proof (induction i limit adj indices req rule: select_loop.induct)
  case (1 i limit adj indices req)
  show ?case
  proof (cases "i < limit \<and> i < length adj")
    case False
    then have "min limit (length adj) - i = 0" by auto
    with False show ?thesis by (subst select_loop.simps) auto
  next
    case True
    with "1.prems" have i: "i < length indices" by simp
    then have rd: "vec_read indices (int i) = Inr (indices ! i)"
      by (simp add: vec_read_def in_range_def)
    from i "1.prems" have "in_range adj (indices ! i)" by simp
    then have rd': "vec_read adj (indices ! i) = Inr (adj ! nat (indices ! i))"
      by (simp add: vec_read_def)
    from True have m: "min limit (length adj) - i = Suc (min limit (length adj) - Suc i)"
      by auto
    have "select_loop i limit adj indices req =
        select_loop (Suc i) limit adj indices (req @ [adj ! nat (indices ! i)])"
      using True rd rd' by (subst select_loop.simps) simp
    also have "\<dots> = Inr ((req @ [adj ! nat (indices ! i)]) @
        map (\<lambda>j. adj ! nat j) (take (min limit (length adj) - Suc i) (drop (Suc i) indices)))"
      using "1.IH" [OF True rd rd'] "1.prems" by simp
    also have "(req @ [adj ! nat (indices ! i)]) @
        map (\<lambda>j. adj ! nat j) (take (min limit (length adj) - Suc i) (drop (Suc i) indices)) =
        req @ map (\<lambda>j. adj ! nat j) (take (min limit (length adj) - i) (drop i indices))"
      using i by (simp add: m Cons_nth_drop_Suc [symmetric])
    finally show ?thesis .
  qed
qed

text \<open>
  Claim C9. Let \<open>A\<close> be the adjacent bottles of the philosopher, \<open>k\<close> their number. For
  every value of \<^verbatim>\<open>rand()\<close> the limit is 1 or 2, and for every shuffle that permutes the
  indices \<open>0, \<dots>, k - 1\<close>, \<^verbatim>\<open>becomeThirsty\<close> returns with the state \<^verbatim>\<open>THIRSTY\<close> and with
  \<^verbatim>\<open>required_bottles\<close> being the bottles of \<open>A\<close> at the first \<open>limit\<close> shuffled indices:
  it has \<open>min limit k\<close> elements, all of them in \<open>A\<close>, taken at distinct positions, and
  nothing of the previous \<^verbatim>\<open>required_bottles\<close> remains.
\<close>

theorem becomeThirsty_selection:
  assumes "getAdjacentBottles graph (phil_id ph) = Inr A"
    and "mset (shuffle (iota (length A))) = mset (iota (length A))"
  shows "\<exists>ph'. becomeThirsty graph rand_value shuffle ph = Inr ph' \<and>
     state ph' = THIRSTY \<and> phil_id ph' = phil_id ph \<and>
     rand_value mod 2 + 1 \<in> {1, 2} \<and>
     required_bottles ph' =
       map (\<lambda>j. A ! nat j) (take (rand_value mod 2 + 1) (shuffle (iota (length A)))) \<and>
     distinct (take (rand_value mod 2 + 1) (shuffle (iota (length A)))) \<and>
     length (required_bottles ph') = min (rand_value mod 2 + 1) (length A) \<and>
     set (required_bottles ph') \<subseteq> set A \<and>
     (\<forall>old. becomeThirsty graph rand_value shuffle (ph\<lparr>required_bottles := old\<rparr>) = Inr ph')"
proof -
  let ?limit = "rand_value mod 2 + 1"
  let ?ix = "shuffle (iota (length A))"
  from assms(2) have len: "length ?ix = length A"
    using mset_eq_length [of ?ix "iota (length A)"] by (simp add: iota_def)
  from assms(2) have set_ix: "set ?ix = set (iota (length A))"
    by (rule mset_eq_setD)
  then have rng: "\<forall>j \<in> set ?ix. in_range A j"
    by (auto simp: iota_def in_range_def)
  have "distinct (iota (length A))"
    by (simp add: iota_def distinct_map inj_on_def)
  with assms(2) have dist: "distinct ?ix"
    using mset_eq_imp_distinct_iff by blast
  have sel: "select_loop 0 ?limit A ?ix [] = Inr (map (\<lambda>j. A ! nat j) (take ?limit ?ix))"
    using select_loop_eq [of A ?ix 0 ?limit "[]"] len rng
    by (simp add: min_def)
  let ?req = "map (\<lambda>j. A ! nat j) (take ?limit ?ix)"
  let ?ph' = "ph\<lparr>state := THIRSTY, required_bottles := ?req\<rparr>"
  have run: "becomeThirsty graph rand_value shuffle ph = Inr ?ph'"
    using assms(1) sel by (simp add: becomeThirsty_def)
  have run_old: "becomeThirsty graph rand_value shuffle (ph\<lparr>required_bottles := old\<rparr>) = Inr ?ph'" for old
    using assms(1) sel by (simp add: becomeThirsty_def)
  have sub: "set ?req \<subseteq> set A"
  proof
    fix x assume "x \<in> set ?req"
    then obtain j where j: "j \<in> set (take ?limit ?ix)" and x: "x = A ! nat j" by auto
    from j have "j \<in> set ?ix" by (rule in_set_takeD)
    with rng have "in_range A j" by simp
    with x show "x \<in> set A" by (simp add: in_range_def)
  qed
  have lim: "?limit \<in> {1, 2}" by (cases "rand_value mod 2 = 0") auto
  show ?thesis
    by (intro exI [of _ ?ph']) (use run run_old sub dist len lim in \<open>simp add: min_def\<close>)
qed

theorem becomeThirsty_selection_witness:
  "getAdjacentBottles [[(1, 0), (2, 5)], [(0, 0)], [(0, 5)]] 0 = Inr [0, 5] \<and>
   mset (rev (iota 2)) = mset (iota 2) \<and>
   becomeThirsty [[(1, 0), (2, 5)], [(0, 0)], [(0, 5)]] 3 rev
     \<lparr>phil_id = 0, state = TRANQUIL, required_bottles = [9]\<rparr> =
     Inr \<lparr>phil_id = 0, state = THIRSTY, required_bottles = [5, 0]\<rparr>"
proof -
  let ?g = "[[(1, 0), (2, 5)], [(0, 0)], [(0, 5)]] :: adjacency"
  let ?ph = "\<lparr>phil_id = 0, state = TRANQUIL, required_bottles = [9]\<rparr>"
  have h1: "getAdjacentBottles ?g (phil_id ?ph) = Inr [0, 5]"
    by (simp add: getAdjacentBottles_def vec_read_def in_range_def)
  have h2: "mset (rev (iota (length [0 :: int, 5]))) = mset (iota (length [0 :: int, 5]))"
    by simp
  have io: "iota (Suc (Suc 0)) = [0, 1]" by (simp add: iota_def)
  from becomeThirsty_selection [of ?g ?ph "[0, 5]" rev 3, OF h1 h2] obtain ph' where
    run: "becomeThirsty ?g 3 rev ?ph = Inr ph'" and st: "state ph' = THIRSTY"
    and id: "phil_id ph' = phil_id ?ph"
    and req: "required_bottles ph' =
      map (\<lambda>j. [0, 5] ! nat j) (take (3 mod 2 + 1) (rev (iota (length [0 :: int, 5]))))"
    by blast
  from st id req have "ph' = \<lparr>phil_id = 0, state = THIRSTY, required_bottles = [5, 0]\<rparr>"
    by (cases ph') (simp add: io)
  with run h1 h2 show ?thesis by (simp add: numeral_2_eq_2)
qed

end
